theory Spec2Isabelle
  imports Main "HOL-Library.AList" "HOL-Library.Sublist" "HOL-Library.Multiset"
begin

section \<open>Data model of cmd/cli/cmds/rum.go\<close>

text \<open>
  A Go \<^verbatim>\<open>interface{}\<close> holding decoded event data is one of: the nil interface, a bool,
  a number, a string, a slice, or a \<^verbatim>\<open>map[string]interface{}\<close>. The type switch of
  \<^verbatim>\<open>flattenMapIntoColumns\<close> separates the last case from all the others; the payload of
  a number plays no role in the code (it is only copied), so it is kept as an integer.

  A Go map is an association list with pairwise distinct keys. The order of the list stands
  for the order in which one run of the program ranges over the map: Go leaves that order
  open, so a second run over the same map is a run over a reordering of the list.
  An assignment \<^verbatim>\<open>m[k] = v\<close> is \<^const>\<open>AList.update\<close>: it replaces the value of an
  existing key and adds a new key otherwise.
\<close>

datatype val =
    VNil
  | VBool bool
  | VNum int
  | VStr string
  | VList "val list"
  | VMap "(string \<times> val) list"

type_synonym gomap = "(string \<times> val) list"

record Action =
  Name :: string
  Attributes :: gomap
  Context :: val

text \<open>The single-value type assertion \<^verbatim>\<open>action.Context.(map[string]interface{})\<close> panics
  when the dynamic type is not a map.\<close>

datatype error = TypeAssertionPanic

section \<open>Flattening\<close>

text \<open>The inner loop of \<^verbatim>\<open>flattenMapIntoColumns\<close>:
  \<^verbatim>\<open>for k, v := range sub { ret[fmt.Sprintf("%s.%s", key, k)] = v }\<close>.\<close>

fun prefixedInto :: "string \<Rightarrow> gomap \<Rightarrow> gomap \<Rightarrow> gomap" where
  "prefixedInto key [] ret = ret"
| "prefixedInto key ((k, v) # sub) ret =
     prefixedInto key sub (AList.update (key @ ''.'' @ k) v ret)"

text \<open>The outer loop \<^verbatim>\<open>for key, value := range rows\<close> with its type switch, threading
  the result map \<^verbatim>\<open>ret\<close>.\<close>

fun flattenLoop :: "gomap \<Rightarrow> gomap \<Rightarrow> gomap" where
  "flattenLoop [] ret = ret"
| "flattenLoop ((key, VMap v) # rest) ret =
     flattenLoop rest (prefixedInto key (flattenLoop v []) ret)"
| "flattenLoop ((key, value) # rest) ret =
     flattenLoop rest (AList.update key value ret)"

definition flattenMapIntoColumns :: "gomap \<Rightarrow> gomap" where
  "flattenMapIntoColumns rows = flattenLoop rows []"

text \<open>The loop \<^verbatim>\<open>for k, v := range flat { row[k] = v }\<close> of \<^verbatim>\<open>flattenActions\<close>.\<close>

fun copyInto :: "gomap \<Rightarrow> gomap \<Rightarrow> gomap" where
  "copyInto [] row = row"
| "copyInto ((k, v) # flat) row = copyInto flat (AList.update k v row)"

text \<open>The body of the loop of \<^verbatim>\<open>flattenActions\<close>: the row of one action.\<close>

definition flattenAction :: "Action \<Rightarrow> error + gomap" where
  "flattenAction action =
     (let row = AList.update ''name'' (VStr (Name action)) [] in
      if Context action \<noteq> VNil then
        (case Context action of
           VMap context \<Rightarrow> Inr (copyInto (flattenMapIntoColumns context) row)
         | _ \<Rightarrow> Inl TypeAssertionPanic)
      else Inr row)"

fun flattenActionsLoop :: "Action list \<Rightarrow> gomap list \<Rightarrow> error + gomap list" where
  "flattenActionsLoop [] ret = Inr ret"
| "flattenActionsLoop (action # actions) ret =
     (case flattenAction action of
        Inl e \<Rightarrow> Inl e
      | Inr row \<Rightarrow> flattenActionsLoop actions (ret @ [row]))"

definition flattenActions :: "Action list \<Rightarrow> error + gomap list" where
  "flattenActions actions = flattenActionsLoop actions []"

section \<open>Column selection\<close>

text \<open>\<^verbatim>\<open>strings.HasPrefix\<close> and \<^verbatim>\<open>strings.HasSuffix\<close> of the Go standard library.\<close>

definition HasPrefix :: "string \<Rightarrow> string \<Rightarrow> bool" where
  "HasPrefix s pre = (length s \<ge> length pre \<and> take (length pre) s = pre)"

definition HasSuffix :: "string \<Rightarrow> string \<Rightarrow> bool" where
  "HasSuffix s suf = (length s \<ge> length suf \<and> drop (length s - length suf) s = suf)"

text \<open>The loop over \<^verbatim>\<open>filters\<close>; the result is \<^const>\<open>True\<close> when the loop leaves through
  \<^verbatim>\<open>continue Keys\<close>.\<close>

fun filterLoop :: "string \<Rightarrow> string list \<Rightarrow> bool" where
  "filterLoop key [] = False"
| "filterLoop key (filter' # filters) =
     (if HasSuffix filter' ''.'' then
        (if HasPrefix key filter' then True else filterLoop key filters)
      else
        (if key = filter' then True else filterLoop key filters))"

text \<open>The loop over \<^verbatim>\<open>fields\<close>, which writes \<^verbatim>\<open>ret[key] = nil\<close> at every match.\<close>

fun fieldLoop :: "string \<Rightarrow> string list \<Rightarrow> gomap \<Rightarrow> gomap" where
  "fieldLoop key [] ret = ret"
| "fieldLoop key (field # fields') ret =
     (if HasSuffix field ''.'' then
        (if HasPrefix key field then fieldLoop key fields' (AList.update key VNil ret)
         else fieldLoop key fields' ret)
      else
        (if key = field then fieldLoop key fields' (AList.update key VNil ret)
         else fieldLoop key fields' ret))"

text \<open>The body of the loop labelled \<^verbatim>\<open>Keys\<close>, for one key of one row.\<close>

definition keyStep :: "string list \<Rightarrow> string list \<Rightarrow> string \<Rightarrow> gomap \<Rightarrow> gomap" where
  "keyStep fields' filters key ret =
     (if key \<noteq> ''name'' then
        (if length filters > 0 \<and> filterLoop key filters then ret
         else if length fields' > 0 then fieldLoop key fields' ret
         else AList.update key VNil ret)
      else ret)"

fun keysLoop :: "string list \<Rightarrow> string list \<Rightarrow> gomap \<Rightarrow> gomap \<Rightarrow> gomap" where
  "keysLoop fields' filters [] ret = ret"
| "keysLoop fields' filters ((key, v) # row) ret =
     keysLoop fields' filters row (keyStep fields' filters key ret)"

fun rowsLoop :: "string list \<Rightarrow> string list \<Rightarrow> gomap list \<Rightarrow> gomap \<Rightarrow> gomap" where
  "rowsLoop fields' filters [] ret = ret"
| "rowsLoop fields' filters (row # rows) ret =
     rowsLoop fields' filters rows (keysLoop fields' filters row ret)"

text \<open>The final loop appends every key of \<^verbatim>\<open>ret\<close> to the returned slice.\<close>

definition collectContextColumns :: "gomap list \<Rightarrow> string list \<Rightarrow> string list \<Rightarrow> string list" where
  "collectContextColumns rows fields' filters = map fst (rowsLoop fields' filters rows [])"

section \<open>Notions of the specification\<close>

text \<open>
  The matching rule of a Pattern, in the words of the specification: a Pattern that ends
  in the separator matches every key that starts with the Pattern text, any other Pattern
  matches the key equal to it.
\<close>

definition pattern_matches :: "string \<Rightarrow> string \<Rightarrow> bool" where
  "pattern_matches pattern key =
     (if pattern \<noteq> [] \<and> last pattern = CHR ''.'' then prefix pattern key else key = pattern)"

text \<open>The keys the specification selects: not \<^verbatim>\<open>"name"\<close>, matched by no filter, and
  matched by some field when there are fields.\<close>

definition selected :: "string list \<Rightarrow> string list \<Rightarrow> string \<Rightarrow> bool" where
  "selected fs filters key \<longleftrightarrow>
     key \<noteq> ''name'' \<and> \<not> (\<exists>f \<in> set filters. pattern_matches f key)
     \<and> (fs = [] \<or> (\<exists>f \<in> set fs. pattern_matches f key))"

text \<open>A key path is the list of the nested keys from the top of the context down to a
  value; its dotted form joins them with the separator.\<close>

fun dotted :: "string list \<Rightarrow> string" where
  "dotted [] = []"
| "dotted [k] = k"
| "dotted (k # ks) = k @ ''.'' @ dotted ks"

text \<open>The key paths of a context that reach a value which is not a mapping, each with that
  value, in the order in which the context lists them.\<close>

fun leaves :: "gomap \<Rightarrow> (string list \<times> val) list" where
  "leaves [] = []"
| "leaves ((k, VMap m) # rest) = map (\<lambda>(p, x). (k # p, x)) (leaves m) @ leaves rest"
| "leaves ((k, x) # rest) = ([k], x) # leaves rest"

definition entries :: "gomap \<Rightarrow> gomap" where
  "entries m = map (\<lambda>(p, x). (dotted p, x)) (leaves m)"

text \<open>
  Two presentations of the same value: equal, or mappings with the same entries that are
  ranged over in different orders, at any depth of nesting. Two runs of the program on the
  same input are runs on two values related in this way.
\<close>

inductive reordered :: "val \<Rightarrow> val \<Rightarrow> bool" where
  same: "reordered x x"
| ranged: "list_all2 (\<lambda>e e'. fst e = fst e' \<and> reordered (snd e) (snd e')) xs xs' \<Longrightarrow>
           mset xs' = mset ys \<Longrightarrow> reordered (VMap xs) (VMap ys)"

code_pred reordered .

text \<open>A context is free of collisions when no two of its leaves have the same dotted key.\<close>

definition collision_free :: "val \<Rightarrow> bool" where
  "collision_free c = (case c of VMap m \<Rightarrow> distinct (map fst (entries m)) | _ \<Rightarrow> True)"

text \<open>The outcome of flattening read as a map: the order of the association list is
  forgotten, a panic stays a panic.\<close>

definition as_map :: "error + gomap \<Rightarrow> error + (string \<rightharpoonup> val)" where
  "as_map r = map_sum id map_of r"

section \<open>Column selection: the loops against the matching rule\<close>

lemma HasSuffix_dot: "HasSuffix p ''.'' \<longleftrightarrow> p \<noteq> [] \<and> last p = CHR ''.''"
proof (cases p rule: rev_cases)
  case Nil
  then show ?thesis by (simp add: HasSuffix_def)
next
  case (snoc ys y)
  then show ?thesis by (auto simp add: HasSuffix_def)
qed

lemma HasPrefix_prefix: "HasPrefix s p \<longleftrightarrow> prefix p s"
  unfolding HasPrefix_def
  by (metis append_eq_conv_conj prefix_def prefix_length_le)

lemma filterLoop_step:
  "filterLoop key (f # filters) \<longleftrightarrow> pattern_matches f key \<or> filterLoop key filters"
  by (simp add: pattern_matches_def HasSuffix_dot HasPrefix_prefix)

lemma filterLoop_iff:
  "filterLoop key filters \<longleftrightarrow> (\<exists>f \<in> set filters. pattern_matches f key)"
  by (induction filters) (simp_all only: filterLoop.simps(1) filterLoop_step list.set, auto)

lemma fieldLoop_step:
  "fieldLoop key (f # fs) ret =
     fieldLoop key fs (if pattern_matches f key then AList.update key VNil ret else ret)"
  by (simp add: pattern_matches_def HasSuffix_dot HasPrefix_prefix)

lemma fieldLoop_keys:
  "fst ` set (fieldLoop key fs ret) =
     fst ` set ret \<union> (if \<exists>f \<in> set fs. pattern_matches f key then {key} else {})"
proof (induction fs arbitrary: ret)
  case Nil
  show ?case by simp
next
  case (Cons f fs)
  show ?case
    unfolding fieldLoop_step Cons.IH
    by (auto simp add: dom_update)
qed

lemma fieldLoop_distinct:
  "distinct (map fst ret) \<Longrightarrow> distinct (map fst (fieldLoop key fs ret))"
proof (induction fs arbitrary: ret)
  case Nil
  then show ?case by simp
next
  case (Cons f fs)
  then show ?case
    unfolding fieldLoop_step by (simp add: distinct_update)
qed

lemma keyStep_keys:
  "fst ` set (keyStep fs filters key ret) =
     fst ` set ret \<union> (if selected fs filters key then {key} else {})"
  unfolding keyStep_def selected_def
  by (auto simp add: filterLoop_iff fieldLoop_keys dom_update)

lemma keyStep_distinct:
  "distinct (map fst ret) \<Longrightarrow> distinct (map fst (keyStep fs filters key ret))"
  by (simp add: keyStep_def fieldLoop_distinct distinct_update)

lemma keysLoop_keys:
  "fst ` set (keysLoop fs filters row ret) =
     fst ` set ret \<union> {key \<in> fst ` set row. selected fs filters key}"
proof (induction row arbitrary: ret)
  case Nil
  show ?case by simp
next
  case (Cons e row)
  obtain key v where e: "e = (key, v)" by (cases e)
  show ?case
    unfolding e keysLoop.simps Cons.IH keyStep_keys by auto
qed

lemma keysLoop_distinct:
  "distinct (map fst ret) \<Longrightarrow> distinct (map fst (keysLoop fs filters row ret))"
  by (induction row arbitrary: ret) (auto simp add: keyStep_distinct)

lemma rowsLoop_keys:
  "fst ` set (rowsLoop fs filters rows ret) =
     fst ` set ret \<union> {key \<in> (\<Union>row \<in> set rows. fst ` set row). selected fs filters key}"
proof (induction rows arbitrary: ret)
  case Nil
  show ?case by simp
next
  case (Cons row rows)
  show ?case
    unfolding rowsLoop.simps Cons.IH keysLoop_keys by auto
qed

lemma rowsLoop_distinct:
  "distinct (map fst ret) \<Longrightarrow> distinct (map fst (rowsLoop fs filters rows ret))"
  by (induction rows arbitrary: ret) (auto simp add: keysLoop_distinct)

text \<open>The columns, as a set, are the selected keys of the rows. The order of the returned
  slice is the order in which Go ranges over \<^verbatim>\<open>ret\<close>, which the language leaves open;
  nothing below depends on it.\<close>

lemma columns_set:
  "set (collectContextColumns rows fs filters) =
     {key \<in> (\<Union>row \<in> set rows. fst ` set row). selected fs filters key}"
  using rowsLoop_keys [of fs filters rows "[]"] by (simp add: collectContextColumns_def)

subsection \<open>Exclusion comes first\<close>

text \<open>
  C1. When some filter Pattern matches a key (so the filter list is not empty), the step for
  that occurrence of the key leaves the working set as it was, whatever the field Patterns
  are, and the key is not among the returned columns. The witness is the specification's
  example: filters \<^verbatim>\<open>["page."]\<close>, fields \<^verbatim>\<open>["page.url"]\<close> and a record with the key
  \<^verbatim>\<open>page.url\<close> give no column.
\<close>

theorem filter_excludes_key:
  "\<exists>f \<in> set filters. pattern_matches f key \<Longrightarrow>
     keyStep fields' filters key ret = ret
     \<and> key \<notin> set (collectContextColumns rows fields' filters)"
proof
  assume m: "\<exists>f \<in> set filters. pattern_matches f key"
  then have "filters \<noteq> []" by auto
  with m show "keyStep fields' filters key ret = ret"
    by (simp add: keyStep_def filterLoop_iff)
  from m show "key \<notin> set (collectContextColumns rows fields' filters)"
    by (simp add: columns_set selected_def)
qed

theorem filter_excludes_key_witness:
  "(\<exists>f \<in> set [''page.'']. pattern_matches f ''page.url'')
   \<and> ''page.url'' \<notin> set (collectContextColumns
         [[(''name'', VStr ''click''), (''page.url'', VStr ''/a'')]] [''page.url''] [''page.''])
   \<and> collectContextColumns
         [[(''name'', VStr ''click''), (''page.url'', VStr ''/a'')]] [''page.url''] [''page.''] = []"
proof -
  have h: "\<exists>f \<in> set [''page.'']. pattern_matches f ''page.url''"
    by (simp add: pattern_matches_def)
  have e: "collectContextColumns
         [[(''name'', VStr ''click''), (''page.url'', VStr ''/a'')]] [''page.url''] [''page.''] = []"
    by (simp add: collectContextColumns_def keyStep_def HasSuffix_def HasPrefix_def)
  from filter_excludes_key [OF h] h e show ?thesis by simp
qed

subsection \<open>Prefix and exact matching\<close>

text \<open>
  C2. The loop over the filters leaves through \<^verbatim>\<open>continue Keys\<close> exactly when some
  filter matches the key under the rule of \<^const>\<open>pattern_matches\<close> (prefix match for a
  Pattern that ends in the separator, equality otherwise); the loop over the fields adds
  the key exactly when some field matches it under the same rule; and when the field list
  is not empty, a key is a column exactly when it is a key of some row other than
  \<^verbatim>\<open>"name"\<close>, no filter matches it and some field matches it.
\<close>

theorem pattern_rule:
  "(filterLoop key filters \<longleftrightarrow> (\<exists>p \<in> set filters. pattern_matches p key))
   \<and> fst ` set (fieldLoop key fields' ret) =
       fst ` set ret \<union> (if \<exists>p \<in> set fields'. pattern_matches p key then {key} else {})
   \<and> (fields' \<noteq> [] \<longrightarrow>
        (key \<in> set (collectContextColumns rows fields' filters) \<longleftrightarrow>
           key \<noteq> ''name'' \<and> key \<in> (\<Union>row \<in> set rows. fst ` set row)
           \<and> \<not> (\<exists>p \<in> set filters. pattern_matches p key)
           \<and> (\<exists>p \<in> set fields'. pattern_matches p key)))"
  by (simp only: filterLoop_iff fieldLoop_keys columns_set selected_def, auto)

text \<open>The specification's examples: \<^verbatim>\<open>"page."\<close> matches \<^verbatim>\<open>page.url\<close> and
  \<^verbatim>\<open>page.referrer\<close> but not \<^verbatim>\<open>pageviews\<close>; \<^verbatim>\<open>"page"\<close> matches only \<^verbatim>\<open>page\<close>.\<close>

theorem pattern_rule_witness:
  "[''page.''] \<noteq> [] \<and> [''page''] \<noteq> []
   \<and> ''page.url'' \<in> set (collectContextColumns
        [[(''name'', VStr ''click''), (''page.url'', VStr ''/a''), (''page.referrer'', VNil),
          (''pageviews'', VNum 3), (''page'', VNum 1)]] [''page.''] [''device.''])
   \<and> ''page.referrer'' \<in> set (collectContextColumns
        [[(''name'', VStr ''click''), (''page.url'', VStr ''/a''), (''page.referrer'', VNil),
          (''pageviews'', VNum 3), (''page'', VNum 1)]] [''page.''] [''device.''])
   \<and> ''pageviews'' \<notin> set (collectContextColumns
        [[(''name'', VStr ''click''), (''page.url'', VStr ''/a''), (''page.referrer'', VNil),
          (''pageviews'', VNum 3), (''page'', VNum 1)]] [''page.''] [''device.''])
   \<and> ''page'' \<in> set (collectContextColumns
        [[(''name'', VStr ''click''), (''page.url'', VStr ''/a''), (''page.referrer'', VNil),
          (''pageviews'', VNum 3), (''page'', VNum 1)]] [''page''] [''device.''])
   \<and> ''page.url'' \<notin> set (collectContextColumns
        [[(''name'', VStr ''click''), (''page.url'', VStr ''/a''), (''page.referrer'', VNil),
          (''pageviews'', VNum 3), (''page'', VNum 1)]] [''page''] [''device.''])
   \<and> filterLoop ''page.url'' [''page.''] \<and> \<not> filterLoop ''pageviews'' [''page.'']
   \<and> filterLoop ''page'' [''page''] \<and> \<not> filterLoop ''page.url'' [''page'']"
proof -
  have m: "pattern_matches ''page.'' ''page.url''" "pattern_matches ''page.'' ''page.referrer''"
    "\<not> pattern_matches ''page.'' ''pageviews''" "pattern_matches ''page'' ''page''"
    "\<not> pattern_matches ''page'' ''page.url''" "\<not> pattern_matches ''page'' ''pageviews''"
    "\<not> pattern_matches ''device.'' ''page.url''" "\<not> pattern_matches ''device.'' ''page.referrer''"
    "\<not> pattern_matches ''device.'' ''pageviews''" "\<not> pattern_matches ''device.'' ''page''"
    by (simp_all add: pattern_matches_def)
  let ?rows = "[[(''name'', VStr ''click''), (''page.url'', VStr ''/a''), (''page.referrer'', VNil),
          (''pageviews'', VNum 3), (''page'', VNum 1)]]"
  from m
    pattern_rule [of "''page.url''" "[''device.'']" "[''page.'']" "[]" ?rows]
    pattern_rule [of "''page.referrer''" "[''device.'']" "[''page.'']" "[]" ?rows]
    pattern_rule [of "''pageviews''" "[''device.'']" "[''page.'']" "[]" ?rows]
    pattern_rule [of "''page''" "[''device.'']" "[''page'']" "[]" ?rows]
    pattern_rule [of "''page.url''" "[''device.'']" "[''page'']" "[]" ?rows]
    pattern_rule [of "''page.url''" "[''page.'']" "[]" "[]" "[]"]
    pattern_rule [of "''pageviews''" "[''page.'']" "[]" "[]" "[]"]
    pattern_rule [of "''page''" "[''page'']" "[]" "[]" "[]"]
    pattern_rule [of "''page.url''" "[''page'']" "[]" "[]" "[]"]
  show ?thesis by simp
qed

subsection \<open>Default inclusion, deduplication, and the reserved key\<close>

text \<open>
  C7. With no fields and no filters the returned columns are, as a set, the union of the
  keys of all the rows without \<^verbatim>\<open>"name"\<close>.
\<close>

theorem default_inclusion:
  "set (collectContextColumns rows [] []) = (\<Union>row \<in> set rows. fst ` set row) - {''name''}"
  by (auto simp add: columns_set selected_def)

theorem default_inclusion_witness:
  "set (collectContextColumns
     [[(''name'', VStr ''click''), (''page.url'', VStr ''/a'')],
      [(''name'', VStr ''click''), (''page.url'', VStr ''/b''), (''device.type'', VStr ''mobile'')]]
     [] []) = {''page.url'', ''device.type''}"
  using default_inclusion [of
     "[[(''name'', VStr ''click''), (''page.url'', VStr ''/a'')],
      [(''name'', VStr ''click''), (''page.url'', VStr ''/b''), (''device.type'', VStr ''mobile'')]]"]
  by auto

text \<open>
  C8. The returned columns hold no name twice, for every input: a key that occurs in
  several rows or that several field Patterns match is one column.
\<close>

theorem columns_distinct:
  "distinct (collectContextColumns rows fields' filters)"
  using rowsLoop_distinct [of "[]" fields' filters rows]
  by (simp add: collectContextColumns_def)

theorem columns_distinct_witness:
  "distinct (collectContextColumns
     [[(''name'', VStr ''a''), (''device.type'', VStr ''mobile'')],
      [(''name'', VStr ''b''), (''device.type'', VStr ''desktop'')]]
     [''device.type'', ''device.''] [])
   \<and> collectContextColumns
     [[(''name'', VStr ''a''), (''device.type'', VStr ''mobile'')],
      [(''name'', VStr ''b''), (''device.type'', VStr ''desktop'')]]
     [''device.type'', ''device.''] [] = [''device.type'']"
proof -
  have "collectContextColumns
     [[(''name'', VStr ''a''), (''device.type'', VStr ''mobile'')],
      [(''name'', VStr ''b''), (''device.type'', VStr ''desktop'')]]
     [''device.type'', ''device.''] [] = [''device.type'']"
    by (simp add: collectContextColumns_def keyStep_def HasSuffix_def HasPrefix_def)
  with columns_distinct [of
     "[[(''name'', VStr ''a''), (''device.type'', VStr ''mobile'')],
      [(''name'', VStr ''b''), (''device.type'', VStr ''desktop'')]]"
     "[''device.type'', ''device.'']" "[]"]
  show ?thesis by simp
qed

text \<open>
  C10. The key \<^verbatim>\<open>"name"\<close> is passed over before any filter or field is looked at: its step
  leaves the working set as it was, and \<^verbatim>\<open>"name"\<close> is never among the returned columns,
  also when a field Pattern names it.
\<close>

theorem name_never_column:
  "keyStep fields' filters ''name'' ret = ret
   \<and> ''name'' \<notin> set (collectContextColumns rows fields' filters)"
  by (simp add: keyStep_def columns_set selected_def)

theorem name_never_column_witness:
  "''name'' \<notin> set (collectContextColumns
      [[(''name'', VStr ''click''), (''page.url'', VStr ''/a'')]] [''name'', ''n'', ''page.''] [])
   \<and> collectContextColumns
      [[(''name'', VStr ''click''), (''page.url'', VStr ''/a'')]] [''name'', ''n'', ''page.''] []
     = [''page.url'']"
proof -
  have "collectContextColumns
      [[(''name'', VStr ''click''), (''page.url'', VStr ''/a'')]] [''name'', ''n'', ''page.''] []
     = [''page.url'']"
    by (simp add: collectContextColumns_def keyStep_def HasSuffix_def HasPrefix_def)
  with name_never_column [of "[''name'', ''n'', ''page.'']" "[]" "[]"
      "[[(''name'', VStr ''click''), (''page.url'', VStr ''/a'')]]"]
  show ?thesis by simp
qed

section \<open>Flattening: absent context\<close>

text \<open>
  C6. An action whose context is the nil interface flattens to the one-entry row
  that maps \<^verbatim>\<open>"name"\<close> to the action's name, and to nothing else.
\<close>

theorem flatten_absent_context:
  "Context action = VNil \<Longrightarrow> flattenAction action = Inr [(''name'', VStr (Name action))]"
  by (simp add: flattenAction_def)

theorem flatten_absent_context_witness:
  "Context \<lparr>Name = ''click'', Attributes = [], Context = VNil\<rparr> = VNil
   \<and> flattenAction \<lparr>Name = ''click'', Attributes = [], Context = VNil\<rparr>
       = Inr [(''name'', VStr ''click'')]"
  using flatten_absent_context [of "\<lparr>Name = ''click'', Attributes = [], Context = VNil\<rparr>"]
  by simp

section \<open>Flattening: the loops against the leaves of the context\<close>

lemma leaves_path_nonempty: "(p, x) \<in> set (leaves m) \<Longrightarrow> p \<noteq> []"
  by (induction m arbitrary: p x rule: leaves.induct) auto

lemma leaves_not_map: "(p, x) \<in> set (leaves m) \<Longrightarrow> x \<noteq> VMap m'"
  by (induction m arbitrary: p x rule: leaves.induct) auto

lemma entries_Nil: "entries [] = []"
  by (simp add: entries_def)

lemma entries_nested:
  "entries ((k, VMap v) # rest) = map (\<lambda>(s, x). (k @ ''.'' @ s, x)) (entries v) @ entries rest"
proof -
  have "dotted (k # p) = k @ ''.'' @ dotted p" if "(p, x) \<in> set (leaves v)" for p x
    using leaves_path_nonempty [OF that] by (cases p) simp_all
  then have "map (\<lambda>(p, x). (dotted p, x)) (map (\<lambda>(p, x). (k # p, x)) (leaves v))
     = map (\<lambda>(s, x). (k @ ''.'' @ s, x)) (map (\<lambda>(p, x). (dotted p, x)) (leaves v))"
    by auto
  then show ?thesis by (simp add: entries_def)
qed

lemma entries_leaf:
  "\<forall>v. x \<noteq> VMap v \<Longrightarrow> entries ((k, x) # rest) = (k, x) # entries rest"
  by (cases x) (simp_all add: entries_def)

lemma prefixedInto_map_of:
  "map_of (prefixedInto key sub ret) =
     map_of ret ++ map_of (rev (map (\<lambda>(s, x). (key @ ''.'' @ s, x)) sub))"
  by (induction sub arbitrary: ret) (auto simp add: update_conv')

lemma copyInto_map_of:
  "map_of (copyInto flat row) = map_of row ++ map_of (rev flat)"
  by (induction flat arbitrary: row) (auto simp add: update_conv')

lemma prefixedInto_distinct:
  "distinct (map fst ret) \<Longrightarrow> distinct (map fst (prefixedInto key sub ret))"
  by (induction sub arbitrary: ret) (auto simp add: distinct_update)

lemma copyInto_distinct:
  "distinct (map fst row) \<Longrightarrow> distinct (map fst (copyInto flat row))"
  by (induction flat arbitrary: row) (auto simp add: distinct_update)

lemma flattenLoop_distinct:
  "distinct (map fst ret) \<Longrightarrow> distinct (map fst (flattenLoop m ret))"
  by (induction m ret rule: flattenLoop.induct)
     (simp_all add: prefixedInto_distinct distinct_update)

lemma map_of_rev_distinct: "distinct (map fst xs) \<Longrightarrow> map_of (rev xs) = map_of xs"
  by (subst map_of_inject_set) (simp_all add: rev_map [symmetric])

lemma map_of_prepend:
  "map_of (map (\<lambda>(s, x). (pre @ s, x)) xs) t =
     (if prefix pre t then map_of xs (drop (length pre) t) else None)"
  by (induction xs) (auto simp add: prefix_def)

lemma map_of_prepend_cong:
  "map_of xs = map_of ys \<Longrightarrow>
   map_of (map (\<lambda>(s, x). (pre @ s, x)) xs) = map_of (map (\<lambda>(s, x). (pre @ s, x)) ys)"
  by (rule ext) (simp only: map_of_prepend)

lemma map_of_prefixed_cong:
  "map_of xs = map_of ys \<Longrightarrow>
   map_of (map (\<lambda>(s, x). (key @ ''.'' @ s, x)) xs) = map_of (map (\<lambda>(s, x). (key @ ''.'' @ s, x)) ys)"
  using map_of_prepend_cong [of xs ys "key @ ''.''"] by simp

text \<open>
  The two inner loops range over a map that the program has just built. Their result, read
  as a map, depends only on the map they range over and not on the order of the ranging, so
  the order of the association list that stands for that map is of no consequence.
\<close>

lemma prefixedInto_order_irrelevant:
  assumes "distinct (map fst sub)" and "distinct (map fst sub')" and "map_of sub = map_of sub'"
  shows "map_of (prefixedInto key sub ret) = map_of (prefixedInto key sub' ret)"
proof -
  from assms have "map_of (rev sub) = map_of (rev sub')"
    by (simp add: map_of_rev_distinct)
  then have "map_of (map (\<lambda>(s, x). (key @ ''.'' @ s, x)) (rev sub))
      = map_of (map (\<lambda>(s, x). (key @ ''.'' @ s, x)) (rev sub'))"
    by (rule map_of_prefixed_cong)
  then show ?thesis
    by (simp add: prefixedInto_map_of rev_map)
qed

lemma copyInto_order_irrelevant:
  assumes "distinct (map fst flat)" and "distinct (map fst flat')" and "map_of flat = map_of flat'"
  shows "map_of (copyInto flat row) = map_of (copyInto flat' row)"
  using assms by (simp add: copyInto_map_of map_of_rev_distinct)

lemma leaf_step:
  "\<forall>v. x \<noteq> VMap v \<Longrightarrow>
   map_of (AList.update key x ret) ++ map_of (rev (entries rest)) =
     map_of ret ++ map_of (rev (entries ((key, x) # rest)))"
  by (rule ext) (simp add: entries_leaf update_conv' map_add_def split: option.split)

text \<open>The map that the outer loop builds: the entries of the context are written over
  \<^verbatim>\<open>ret\<close> in the order of the ranging, a later entry over an earlier one.\<close>

lemma flattenLoop_map_of:
  "map_of (flattenLoop m ret) = map_of ret ++ map_of (rev (entries m))"
proof (induction m ret rule: flattenLoop.induct)
  case (1 ret)
  show ?case by (simp add: entries_Nil)
next
  case (2 key v rest ret)
  let ?sub = "flattenLoop v []"
  let ?pre = "\<lambda>(s, x). (key @ ''.'' @ s, x :: val)"
  have d: "distinct (map fst ?sub)" by (simp add: flattenLoop_distinct)
  have "map_of (rev ?sub) = map_of (rev (entries v))"
    using "2.IH"(1) by (simp add: map_of_rev_distinct [OF d])
  then have "map_of (map ?pre (rev ?sub)) = map_of (map ?pre (rev (entries v)))"
    by (rule map_of_prefixed_cong)
  then have "map_of (prefixedInto key ?sub ret) = map_of ret ++ map_of (rev (map ?pre (entries v)))"
    by (simp add: prefixedInto_map_of rev_map)
  then show ?case
    using "2.IH"(2) by (simp add: entries_nested)
qed (simp_all only: flattenLoop.simps, simp_all only: leaf_step val.distinct simp_thms)

lemma flattenAction_row:
  assumes "Context a = VMap m"
  shows "\<exists>row. flattenAction a = Inr row \<and> distinct (map fst row)
           \<and> map_of row = [''name'' \<mapsto> VStr (Name a)] ++ map_of (rev (entries m))"
proof -
  let ?flat = "flattenMapIntoColumns m"
  let ?row = "copyInto ?flat [(''name'', VStr (Name a))]"
  have f: "flattenAction a = Inr ?row"
    using assms by (simp add: flattenAction_def)
  have d: "distinct (map fst ?row)"
    by (simp add: copyInto_distinct)
  have df: "distinct (map fst ?flat)"
    by (simp add: flattenMapIntoColumns_def flattenLoop_distinct)
  have "map_of ?flat = map_of (rev (entries m))"
    by (simp add: flattenMapIntoColumns_def flattenLoop_map_of)
  then have "map_of ?row = [''name'' \<mapsto> VStr (Name a)] ++ map_of (rev (entries m))"
    by (simp add: copyInto_map_of map_of_rev_distinct [OF df])
  with f d show ?thesis by blast
qed

subsection \<open>One entry for each leaf path\<close>

text \<open>
  C4. For an action whose context is a mapping, flattening returns a row with pairwise
  distinct keys; its keys are \<^verbatim>\<open>"name"\<close> and the dotted forms of the key paths that reach
  a value which is not a mapping, and no others; and no entry of the row holds a mapping,
  so a mapping between the top and a leaf has no entry of its own. The witness is the
  specification's example \<^verbatim>\<open>{"a": {"b": {"c": 1}}}\<close>, with no keys \<^verbatim>\<open>"a"\<close> or \<^verbatim>\<open>"a.b"\<close>.
\<close>

theorem flatten_leaf_paths:
  assumes "Context a = VMap m"
  shows "\<exists>row. flattenAction a = Inr row \<and> distinct (map fst row)
           \<and> fst ` set row = insert ''name'' (dotted ` fst ` set (leaves m))
           \<and> (\<forall>(k, v) \<in> set row. \<forall>m'. v \<noteq> VMap m')"
proof -
  from flattenAction_row [OF assms] obtain row where
    f: "flattenAction a = Inr row" and d: "distinct (map fst row)"
    and m: "map_of row = [''name'' \<mapsto> VStr (Name a)] ++ map_of (rev (entries m))"
    by blast
  have "dom (map_of row) = insert ''name'' (fst ` set (entries m))"
    unfolding m by (auto simp add: dom_map_of_conv_image_fst)
  then have k: "fst ` set row = insert ''name'' (dotted ` fst ` set (leaves m))"
    by (force simp add: dom_map_of_conv_image_fst entries_def)
  have nm: "v \<noteq> VMap m'" if "(k, v) \<in> set row" for k v m'
  proof -
    from that d have "map_of row k = Some v" by simp
    then have "v = VStr (Name a) \<or> (k, v) \<in> set (entries m)"
      unfolding m by (auto simp add: map_add_Some_iff dest: map_of_SomeD split: if_splits)
    then show ?thesis
      by (auto simp add: entries_def dest: leaves_not_map)
  qed
  have "\<forall>(k, v) \<in> set row. \<forall>m'. v \<noteq> VMap m'"
    using nm by fast
  with f d k show ?thesis by simp
qed

theorem flatten_leaf_paths_witness:
  "Context \<lparr>Name = ''click'', Attributes = [],
            Context = VMap [(''a'', VMap [(''b'', VMap [(''c'', VNum 1)])])]\<rparr>
     = VMap [(''a'', VMap [(''b'', VMap [(''c'', VNum 1)])])]
   \<and> (\<exists>row. flattenAction \<lparr>Name = ''click'', Attributes = [],
            Context = VMap [(''a'', VMap [(''b'', VMap [(''c'', VNum 1)])])]\<rparr> = Inr row
        \<and> distinct (map fst row)
        \<and> fst ` set row = {''name'', ''a.b.c''}
        \<and> ''a'' \<notin> fst ` set row \<and> ''a.b'' \<notin> fst ` set row)
   \<and> flattenAction \<lparr>Name = ''click'', Attributes = [],
            Context = VMap [(''a'', VMap [(''b'', VMap [(''c'', VNum 1)])])]\<rparr>
     = Inr [(''name'', VStr ''click''), (''a.b.c'', VNum 1)]"
proof -
  let ?m = "[(''a'', VMap [(''b'', VMap [(''c'', VNum 1)])])]"
  let ?a = "\<lparr>Name = ''click'', Attributes = [], Context = VMap ?m\<rparr>"
  have c: "Context ?a = VMap ?m" by simp
  have l: "dotted ` fst ` set (leaves ?m) = {''a.b.c''}" by simp
  have e: "flattenAction ?a = Inr [(''name'', VStr ''click''), (''a.b.c'', VNum 1)]"
    by (simp add: flattenAction_def flattenMapIntoColumns_def)
  from flatten_leaf_paths [OF c] obtain row where
    r: "flattenAction ?a = Inr row \<and> distinct (map fst row)
      \<and> fst ` set row = insert ''name'' (dotted ` fst ` set (leaves ?m))
      \<and> (\<forall>(k, v) \<in> set row. \<forall>m'. v \<noteq> VMap m')" ..
  from r have r1: "flattenAction ?a = Inr row" by (rule conjunct1)
  from r have r2: "distinct (map fst row)" by (elim conjE)
  from r have "fst ` set row = insert ''name'' (dotted ` fst ` set (leaves ?m))"
    by (elim conjE)
  then have r3: "fst ` set row = {''name'', ''a.b.c''}"
    unfolding l .
  then have r4: "''a'' \<notin> fst ` set row" and r5: "''a.b'' \<notin> fst ` set row"
    by simp_all
  from r1 r2 r3 r4 r5 have x: "\<exists>row. flattenAction ?a = Inr row \<and> distinct (map fst row)
      \<and> fst ` set row = {''name'', ''a.b.c''}
      \<and> ''a'' \<notin> fst ` set row \<and> ''a.b'' \<notin> fst ` set row"
    by (intro exI [of _ row] conjI)
  from c x e show ?thesis by (intro conjI)
qed

section \<open>Flattening and the order of ranging\<close>

lemma leaves_Cons: "leaves (e # rest) = leaves [e] @ leaves rest"
proof -
  obtain k x where e: "e = (k, x)" by (cases e)
  show ?thesis unfolding e by (cases x) simp_all
qed

lemma mset_leaves: "mset (leaves m) = (\<Sum>e \<in># mset m. mset (leaves [e]))"
proof (induction m)
  case Nil
  show ?case by simp
next
  case (Cons e m)
  have "mset (leaves (e # m)) = mset (leaves [e]) + mset (leaves m)"
    by (subst leaves_Cons) simp
  with Cons show ?case by simp
qed

lemma mset_leaves_perm:
  assumes "mset m = mset m'"
  shows "mset (leaves m) = mset (leaves m')"
proof -
  have "mset (leaves m) = (\<Sum>e \<in># mset m. mset (leaves [e]))"
    by (rule mset_leaves)
  also have "\<dots> = (\<Sum>e \<in># mset m'. mset (leaves [e]))"
    using assms by simp
  also have "\<dots> = mset (leaves m')"
    by (rule mset_leaves [symmetric])
  finally show ?thesis .
qed

lemma reordered_leaf: "reordered x y \<Longrightarrow> \<forall>v. x \<noteq> VMap v \<Longrightarrow> y = x"
  by (cases rule: reordered.cases) auto

lemma leaves_single_nested:
  "mset (leaves [(k, VMap v)]) = image_mset (\<lambda>(p, x). (k # p, x)) (mset (leaves v))"
  by simp

lemma leaves_pointwise:
  assumes "list_all2 (\<lambda>e e'. fst e = fst e' \<and> reordered (snd e) (snd e') \<and>
             (\<forall>m. snd e = VMap m \<longrightarrow>
                (\<exists>m'. snd e' = VMap m' \<and> mset (leaves m) = mset (leaves m')))) xs xs'"
  shows "mset (leaves xs) = mset (leaves xs')"
  using assms
proof (induction xs xs' rule: list_all2_induct)
  case Nil
  show ?case by simp
next
  case (Cons e es e' es')
  obtain k x where e: "e = (k, x)" by (cases e)
  obtain k' x' where e': "e' = (k', x')" by (cases e')
  from Cons.hyps(1) have kk: "k' = k" unfolding e e' by simp
  from Cons.hyps(1) have r: "reordered x x'" unfolding e e' by simp
  from Cons.hyps(1) have ih:
    "\<forall>m. x = VMap m \<longrightarrow> (\<exists>m'. x' = VMap m' \<and> mset (leaves m) = mset (leaves m'))"
    unfolding e e' by simp
  have one: "mset (leaves [e]) = mset (leaves [e'])"
  proof (cases "\<exists>v. x = VMap v")
    case True
    then obtain v where v: "x = VMap v" by blast
    with ih obtain v' where v': "x' = VMap v'" and l: "mset (leaves v) = mset (leaves v')"
      by blast
    show ?thesis
      unfolding e e' kk v v' leaves_single_nested l by (rule refl)
  next
    case False
    then have "x' = x" using reordered_leaf [OF r] by blast
    then show ?thesis unfolding e e' kk by simp
  qed
  have "mset (leaves (e # es)) = mset (leaves [e]) + mset (leaves es)"
    by (subst leaves_Cons) simp
  moreover have "mset (leaves (e' # es')) = mset (leaves [e']) + mset (leaves es')"
    by (subst leaves_Cons) simp
  ultimately show ?case using one Cons.IH by simp
qed

text \<open>Two presentations of one mapping have the same leaves, up to their order.\<close>

lemma reordered_leaves:
  "reordered x y \<Longrightarrow> x = VMap m \<Longrightarrow> \<exists>m'. y = VMap m' \<and> mset (leaves m) = mset (leaves m')"
proof (induction arbitrary: m rule: reordered.induct)
  case (same x)
  then show ?case by simp
next
  case (ranged xs xs' ys)
  from ranged.IH have "mset (leaves xs) = mset (leaves xs')"
    by (rule leaves_pointwise)
  moreover from ranged.hyps have "mset (leaves xs') = mset (leaves ys)"
    by (rule mset_leaves_perm)
  ultimately show ?case using ranged.prems by simp
qed

lemma map_of_entries_perm:
  assumes "mset (leaves m) = mset (leaves m')" and "distinct (map fst (entries m))"
  shows "map_of (rev (entries m)) = map_of (rev (entries m'))"
proof -
  from assms(1) have e: "mset (entries m) = mset (entries m')"
    by (simp add: entries_def)
  then have "mset (map fst (entries m)) = mset (map fst (entries m'))"
    by simp
  with assms(2) have d': "distinct (map fst (entries m'))"
    by (metis mset_eq_imp_distinct_iff)
  from e have s: "set (entries m) = set (entries m')"
    by (rule mset_eq_setD)
  from assms(2) d' s show ?thesis
    by (subst map_of_inject_set) (simp_all add: rev_map [symmetric])
qed

text \<open>
  C5, as amended. Two runs of the flattening on the same action, each ranging over the
  mappings of the context in an order of its own, end in the same outcome (the same row
  read as a map, or a panic in both) whenever no two leaves of the context have the same
  dotted key.
\<close>

theorem flatten_order_independent:
  assumes "reordered (Context a) (Context b)" and "Name a = Name b"
    and "collision_free (Context a)"
  shows "as_map (flattenAction a) = as_map (flattenAction b)"
proof (cases "\<exists>m. Context a = VMap m")
  case True
  then obtain m where m: "Context a = VMap m" by blast
  from reordered_leaves [OF assms(1) m] obtain m' where
    m': "Context b = VMap m'" and p: "mset (leaves m) = mset (leaves m')"
    by blast
  from assms(3) m have "distinct (map fst (entries m))"
    by (simp add: collision_free_def)
  with p have "map_of (rev (entries m)) = map_of (rev (entries m'))"
    by (rule map_of_entries_perm)
  with flattenAction_row [OF m] flattenAction_row [OF m'] assms(2)
  show ?thesis by (auto simp add: as_map_def)
next
  case False
  with reordered_leaf [OF assms(1)] have c: "Context b = Context a" by simp
  show ?thesis unfolding flattenAction_def c assms(2) by (rule refl)
qed

text \<open>A witness with a reordering at both levels of a nested context.\<close>

theorem flatten_order_independent_witness:
  "reordered
     (Context \<lparr>Name = ''click'', Attributes = [], Context =
        VMap [(''page'', VMap [(''url'', VStr ''/a''), (''ref'', VNil)]), (''n'', VNum 1)]\<rparr>)
     (Context \<lparr>Name = ''click'', Attributes = [], Context =
        VMap [(''n'', VNum 1), (''page'', VMap [(''ref'', VNil), (''url'', VStr ''/a'')])]\<rparr>)
   \<and> collision_free
     (Context \<lparr>Name = ''click'', Attributes = [], Context =
        VMap [(''page'', VMap [(''url'', VStr ''/a''), (''ref'', VNil)]), (''n'', VNum 1)]\<rparr>)
   \<and> as_map (flattenAction \<lparr>Name = ''click'', Attributes = [], Context =
        VMap [(''page'', VMap [(''url'', VStr ''/a''), (''ref'', VNil)]), (''n'', VNum 1)]\<rparr>)
     = as_map (flattenAction \<lparr>Name = ''click'', Attributes = [], Context =
        VMap [(''n'', VNum 1), (''page'', VMap [(''ref'', VNil), (''url'', VStr ''/a'')])]\<rparr>)"
proof -
  let ?a = "\<lparr>Name = ''click'', Attributes = [], Context =
        VMap [(''page'', VMap [(''url'', VStr ''/a''), (''ref'', VNil)]), (''n'', VNum 1)]\<rparr>"
  let ?b = "\<lparr>Name = ''click'', Attributes = [], Context =
        VMap [(''n'', VNum 1), (''page'', VMap [(''ref'', VNil), (''url'', VStr ''/a'')])]\<rparr>"
  have "reordered (VMap [(''url'', VStr ''/a''), (''ref'', VNil)])
      (VMap [(''ref'', VNil), (''url'', VStr ''/a'')])"
    by (rule ranged [where xs' = "[(''url'', VStr ''/a''), (''ref'', VNil)]"])
       (simp_all add: same)
  then have "reordered
      (VMap [(''page'', VMap [(''url'', VStr ''/a''), (''ref'', VNil)]), (''n'', VNum 1)])
      (VMap [(''n'', VNum 1), (''page'', VMap [(''ref'', VNil), (''url'', VStr ''/a'')])])"
    by (intro ranged [where xs' =
          "[(''page'', VMap [(''ref'', VNil), (''url'', VStr ''/a'')]), (''n'', VNum 1)]"])
       (simp_all add: same)
  then have r: "reordered (Context ?a) (Context ?b)" by simp
  have n: "Name ?a = Name ?b" by simp
  have f: "collision_free (Context ?a)"
    by (simp add: collision_free_def entries_def)
  from r f flatten_order_independent [OF r n f] show ?thesis by (intro conjI)
qed

text \<open>
  Without the condition the statement fails: a context with the literal key \<^verbatim>\<open>"a.b"\<close> beside
  the nested path \<^verbatim>\<open>a\<close>, \<^verbatim>\<open>b\<close> flattens to a row whose \<^verbatim>\<open>"a.b"\<close> is the value that the
  run ranged over last.
\<close>

theorem flatten_order_dependent:
  "reordered
     (Context \<lparr>Name = ''click'', Attributes = [], Context =
        VMap [(''a.b'', VNum 1), (''a'', VMap [(''b'', VNum 2)])]\<rparr>)
     (Context \<lparr>Name = ''click'', Attributes = [], Context =
        VMap [(''a'', VMap [(''b'', VNum 2)]), (''a.b'', VNum 1)]\<rparr>)
   \<and> flattenAction \<lparr>Name = ''click'', Attributes = [], Context =
        VMap [(''a.b'', VNum 1), (''a'', VMap [(''b'', VNum 2)])]\<rparr>
       = Inr [(''name'', VStr ''click''), (''a.b'', VNum 2)]
   \<and> flattenAction \<lparr>Name = ''click'', Attributes = [], Context =
        VMap [(''a'', VMap [(''b'', VNum 2)]), (''a.b'', VNum 1)]\<rparr>
       = Inr [(''name'', VStr ''click''), (''a.b'', VNum 1)]
   \<and> as_map (flattenAction \<lparr>Name = ''click'', Attributes = [], Context =
        VMap [(''a.b'', VNum 1), (''a'', VMap [(''b'', VNum 2)])]\<rparr>)
     \<noteq> as_map (flattenAction \<lparr>Name = ''click'', Attributes = [], Context =
        VMap [(''a'', VMap [(''b'', VNum 2)]), (''a.b'', VNum 1)]\<rparr>)"
proof -
  let ?a = "\<lparr>Name = ''click'', Attributes = [], Context =
        VMap [(''a.b'', VNum 1), (''a'', VMap [(''b'', VNum 2)])]\<rparr>"
  let ?b = "\<lparr>Name = ''click'', Attributes = [], Context =
        VMap [(''a'', VMap [(''b'', VNum 2)]), (''a.b'', VNum 1)]\<rparr>"
  have "reordered (VMap [(''a.b'', VNum 1), (''a'', VMap [(''b'', VNum 2)])])
      (VMap [(''a'', VMap [(''b'', VNum 2)]), (''a.b'', VNum 1)])"
    by (rule ranged [where xs' = "[(''a.b'', VNum 1), (''a'', VMap [(''b'', VNum 2)])]"])
       (simp_all add: same)
  then have r: "reordered (Context ?a) (Context ?b)" by simp
  have fa: "flattenAction ?a = Inr [(''name'', VStr ''click''), (''a.b'', VNum 2)]"
    by (simp add: flattenAction_def flattenMapIntoColumns_def)
  have fb: "flattenAction ?b = Inr [(''name'', VStr ''click''), (''a.b'', VNum 1)]"
    by (simp add: flattenAction_def flattenMapIntoColumns_def)
  have ne: "as_map (flattenAction ?a) \<noteq> as_map (flattenAction ?b)"
  proof
    assume "as_map (flattenAction ?a) = as_map (flattenAction ?b)"
    then have "map_of [(''name'', VStr ''click''), (''a.b'', VNum 2)]
        = map_of [(''name'', VStr ''click''), (''a.b'', VNum 1)]"
      unfolding fa fb as_map_def by simp
    then have "map_of [(''name'', VStr ''click''), (''a.b'', VNum 2)] ''a.b''
        = map_of [(''name'', VStr ''click''), (''a.b'', VNum 1)] ''a.b''"
      by (rule arg_cong [where f = "\<lambda>m. m ''a.b''"])
    then show False by simp
  qed
  from r fa fb ne show ?thesis by (intro conjI)
qed

section \<open>Flattening: panics and the name\<close>

lemma flattenActionsLoop_ok:
  "\<forall>a \<in> set actions. \<exists>row. flattenAction a = Inr row \<Longrightarrow>
   \<exists>rows. flattenActionsLoop actions ret = Inr (ret @ rows) \<and> length rows = length actions"
proof (induction actions arbitrary: ret)
  case Nil
  show ?case by simp
next
  case (Cons a actions)
  from Cons.prems obtain row where row: "flattenAction a = Inr row" by auto
  from Cons.prems have "\<forall>a \<in> set actions. \<exists>row. flattenAction a = Inr row" by simp
  from Cons.IH [OF this, of "ret @ [row]"] obtain rows where
    "flattenActionsLoop actions (ret @ [row]) = Inr ((ret @ [row]) @ rows)"
    "length rows = length actions" by blast
  with row have "flattenActionsLoop (a # actions) ret = Inr (ret @ (row # rows))
      \<and> length (row # rows) = length (a # actions)" by simp
  then show ?case by blast
qed

text \<open>The rows of \<^verbatim>\<open>flattenActions\<close> are the rows of its loop body, action by action.\<close>

lemma flattenActionsLoop_rows:
  "flattenActionsLoop actions ret = Inr out \<Longrightarrow>
   \<exists>rows. out = ret @ rows \<and> list_all2 (\<lambda>a row. flattenAction a = Inr row) actions rows"
proof (induction actions arbitrary: ret)
  case Nil
  then show ?case by simp
next
  case (Cons a actions)
  from Cons.prems obtain row where row: "flattenAction a = Inr row"
    and l: "flattenActionsLoop actions (ret @ [row]) = Inr out"
    by (auto split: sum.splits)
  from Cons.IH [OF l] obtain rows where
    "out = (ret @ [row]) @ rows" "list_all2 (\<lambda>a row. flattenAction a = Inr row) actions rows"
    by blast
  with row have "out = ret @ (row # rows)
      \<and> list_all2 (\<lambda>a row. flattenAction a = Inr row) (a # actions) (row # rows)"
    by simp
  then show ?case by blast
qed

lemma flattenActions_rows:
  "flattenActions actions = Inr rows \<Longrightarrow>
   list_all2 (\<lambda>a row. flattenAction a = Inr row) actions rows"
  using flattenActionsLoop_rows [of actions "[]" rows] by (simp add: flattenActions_def)

lemma flattenAction_ok:
  "Context a = VNil \<or> (\<exists>m. Context a = VMap m) \<Longrightarrow> \<exists>row. flattenAction a = Inr row"
  by (auto simp add: flattenAction_def)

text \<open>The panic of the model is a real branch: a context that is neither nil nor a mapping
  makes the type assertion fail.\<close>

lemma flattenAction_panics:
  "flattenAction \<lparr>Name = ''click'', Attributes = [], Context = VStr ''ctx''\<rparr>
     = Inl TypeAssertionPanic"
  by (simp add: flattenAction_def)

text \<open>
  C9. When the context of every action is nil or a mapping, \<^verbatim>\<open>flattenActions\<close> does not
  panic: the type assertion succeeds at every action and one row is returned for each.
  The source of \<^verbatim>\<open>collectContextColumns\<close> has no operation that can fail (it ranges over
  maps and slices, compares strings and assigns into a map made by a literal), so
  \<^const>\<open>collectContextColumns\<close> has no error among its results and returns on every input,
  as every function here does: the recursion of each loop is over a finite list or a finite
  value.
\<close>

theorem flatten_no_panic:
  assumes "\<forall>a \<in> set actions. Context a = VNil \<or> (\<exists>m. Context a = VMap m)"
  shows "\<exists>rows. flattenActions actions = Inr rows \<and> length rows = length actions"
proof -
  from assms have "\<forall>a \<in> set actions. \<exists>row. flattenAction a = Inr row"
    by (simp add: flattenAction_ok)
  from flattenActionsLoop_ok [OF this, of "[]"] show ?thesis
    by (simp add: flattenActions_def)
qed

theorem flatten_no_panic_witness:
  "list_all (\<lambda>a. Context a = VNil \<or> (\<exists>m. Context a = VMap m))
      [\<lparr>Name = ''view'', Attributes = [], Context = VNil\<rparr>,
       \<lparr>Name = ''click'', Attributes = [],
        Context = VMap [(''page'', VMap [(''url'', VStr ''/a'')])]\<rparr>]
   \<and> (\<exists>rows. flattenActions [\<lparr>Name = ''view'', Attributes = [], Context = VNil\<rparr>,
               \<lparr>Name = ''click'', Attributes = [],
                Context = VMap [(''page'', VMap [(''url'', VStr ''/a'')])]\<rparr>] = Inr rows
         \<and> length rows = 2)
   \<and> flattenActions [\<lparr>Name = ''view'', Attributes = [], Context = VNil\<rparr>,
               \<lparr>Name = ''click'', Attributes = [],
                Context = VMap [(''page'', VMap [(''url'', VStr ''/a'')])]\<rparr>]
       = Inr [[(''name'', VStr ''view'')],
              [(''name'', VStr ''click''), (''page.url'', VStr ''/a'')]]"
proof -
  let ?actions = "[\<lparr>Name = ''view'', Attributes = [], Context = VNil\<rparr>,
               \<lparr>Name = ''click'', Attributes = [],
                Context = VMap [(''page'', VMap [(''url'', VStr ''/a'')])]\<rparr>]"
  have h: "\<forall>a \<in> set ?actions. Context a = VNil \<or> (\<exists>m. Context a = VMap m)"
    by simp
  from flatten_no_panic [OF h] obtain rows where
    r: "flattenActions ?actions = Inr rows \<and> length rows = length ?actions" ..
  then have "flattenActions ?actions = Inr rows \<and> length rows = 2" by simp
  then have x: "\<exists>rows. flattenActions ?actions = Inr rows \<and> length rows = 2" ..
  have e: "flattenActions ?actions = Inr [[(''name'', VStr ''view'')],
              [(''name'', VStr ''click''), (''page.url'', VStr ''/a'')]]"
    by (simp add: flattenActions_def flattenAction_def flattenMapIntoColumns_def)
  have h': "list_all (\<lambda>a. Context a = VNil \<or> (\<exists>m. Context a = VMap m)) ?actions"
    by simp
  from h' x e show ?thesis by (intro conjI)
qed

text \<open>The name stays in the row when no leaf of the context has the key \<^verbatim>\<open>"name"\<close>.\<close>

lemma flatten_name_kept:
  assumes "Context a = VMap m" and "''name'' \<notin> fst ` set (entries m)"
  shows "\<exists>row. flattenAction a = Inr row \<and> map_of row ''name'' = Some (VStr (Name a))"
proof -
  from flattenAction_row [OF assms(1)] obtain row where
    f: "flattenAction a = Inr row"
    and m: "map_of row = [''name'' \<mapsto> VStr (Name a)] ++ map_of (rev (entries m))"
    by blast
  from assms(2) have "map_of (rev (entries m)) ''name'' = None"
    by (simp add: map_of_eq_None_iff)
  then have "map_of row ''name'' = Some (VStr (Name a))"
    unfolding m by (simp add: map_add_def)
  with f show ?thesis by blast
qed

text \<open>
  C3. The row does not always hold the action's name under \<^verbatim>\<open>"name"\<close>:
  \<^verbatim>\<open>row["name"] = action.Name\<close> is written first and the entries of the context are copied
  over it, so a context with a key \<^verbatim>\<open>"name"\<close> of its own replaces the name.
\<close>

theorem flatten_name_overwritten:
  "flattenAction \<lparr>Name = ''click'', Attributes = [],
                  Context = VMap [(''name'', VStr ''other'')]\<rparr>
     = Inr [(''name'', VStr ''other'')]"
  by (simp add: flattenAction_def flattenMapIntoColumns_def)

end
